theory Spec2Isabelle
  imports Complex_Main
begin

unbundle bit_operations_syntax

section \<open>The camera probe (TEST.py)\<close>

text \<open>
  The probe is a script around four calls into the OpenCV binding. What those calls
  return is the environment of a run:
  \<^item> \<open>opened\<close>: the value of \<^verbatim>\<open>cap.isOpened()\<close>;
  \<^item> \<open>reads i\<close>: the pair \<^verbatim>\<open>(ret, frame)\<close> returned by the call number \<open>i\<close> of
    \<^verbatim>\<open>cap.read()\<close> (counted from 0); the type \<open>'f\<close> of a frame is left open;
  \<^item> \<open>polls i\<close>: the integer returned by the call number \<open>i\<close> of \<^verbatim>\<open>cv2.waitKey(1)\<close>.
  Every iteration of the loop that reaches the key poll has made exactly one read
  before it, so iteration \<open>i\<close> makes read \<open>i\<close> and poll \<open>i\<close>.
\<close>

record 'f camera =
  opened :: bool
  reads :: "nat \<Rightarrow> bool \<times> 'f"
  polls :: "nat \<Rightarrow> int"

text \<open>
  What a run does is the list of its calls and control transfers, in program order.
  \<open>Break\<close> records the execution of a \<^verbatim>\<open>break\<close> statement, \<open>Exit\<close> the call of
  \<^verbatim>\<open>exit\<close> with its argument (\<open>None\<close> for \<^verbatim>\<open>exit()\<close>).
\<close>

datatype 'f event =
    VideoCapture int
  | IsOpened bool
  | Print string
  | Exit "int option"
  | Read bool 'f
  | Imshow string 'f
  | WaitKey int int
  | Break
  | Release
  | DestroyAllWindows

text \<open>
  How a run ends: the fuel (the number of loop iterations allowed) ran out while the
  loop was still going, the interpreter left through \<^verbatim>\<open>exit\<close> with a process status,
  or the script ran to its last line.
\<close>

datatype outcome = OutOfFuel | Exited int | Completed

text \<open>
  The two messages start with the cross mark U+274C, three bytes in UTF-8, followed by
  a space.
\<close>

definition cross_mark :: string where
  "cross_mark = [CHR 0xE2, CHR 0x9D, CHR 0x8C]"

definition open_failed_msg :: string where
  "open_failed_msg = cross_mark @ '' Failed to open webcam''"

definition grab_failed_msg :: string where
  "grab_failed_msg = cross_mark @ '' Failed to grab frame''"

text \<open>Python's \<^verbatim>\<open>ord\<close> on a one-character ASCII string.\<close>

definition ord :: "char \<Rightarrow> int" where
  "ord c = of_char c"

text \<open>
  The test of line 20, \<^verbatim>\<open>cv2.waitKey(1) & 0xFF == ord('q')\<close>. In Python \<^verbatim>\<open>&\<close> binds
  tighter than \<^verbatim>\<open>==\<close>, and \<^verbatim>\<open>&\<close> on a negative integer works on its two's complement,
  as \<open>AND\<close> on \<open>int\<close> does.
\<close>

definition quit_key :: "int \<Rightarrow> bool" where
  "quit_key k = (k AND 0xFF = ord CHR ''q'')"

text \<open>
  \<^verbatim>\<open>exit()\<close> raises \<^verbatim>\<open>SystemExit\<close> with the argument it was given; the interpreter
  turns the argument \<^verbatim>\<open>None\<close> into the process status 0 and a small integer into
  that status.
\<close>

fun exit_status :: "int option \<Rightarrow> int" where
  "exit_status None = 0"
| "exit_status (Some n) = n"

text \<open>
  The loop of lines 14 to 21, from iteration \<open>i\<close> on, for at most \<open>n\<close> iterations. The
  result is whether the loop was left by a \<^verbatim>\<open>break\<close>, and the events of those
  iterations.
\<close>

fun loop :: "nat \<Rightarrow> 'f camera \<Rightarrow> nat \<Rightarrow> bool \<times> 'f event list" where
  "loop 0 cam i = (False, [])"
| "loop (Suc n) cam i =
     (case reads cam i of (ret, frame) \<Rightarrow>
        if \<not> ret then (True, [Read ret frame, Print grab_failed_msg, Break])
        else
          let k = polls cam i in
          if quit_key k
          then (True, [Read ret frame, Imshow ''Webcam'' frame, WaitKey 1 k, Break])
          else
            (case loop n cam (Suc i) of (left, evs) \<Rightarrow>
               (left, [Read ret frame, Imshow ''Webcam'' frame, WaitKey 1 k] @ evs)))"

text \<open>The whole script, lines 9 to 24.\<close>

definition probe :: "nat \<Rightarrow> 'f camera \<Rightarrow> outcome \<times> 'f event list" where
  "probe fuel cam =
     (if \<not> opened cam
      then (Exited (exit_status None),
            [VideoCapture 0, IsOpened (opened cam), Print open_failed_msg, Exit None])
      else
        (case loop fuel cam 0 of (left, evs) \<Rightarrow>
           if left
           then (Completed,
                 [VideoCapture 0, IsOpened (opened cam)] @ evs @ [Release, DestroyAllWindows])
           else (OutOfFuel, [VideoCapture 0, IsOpened (opened cam)] @ evs)))"

text \<open>
  What a trace shows: the \<^verbatim>\<open>ret\<close> values of the reads, the frames of the successful
  reads, and the frames handed to \<^verbatim>\<open>cv2.imshow\<close>, each in program order.
\<close>

fun rets :: "'f event list \<Rightarrow> bool list" where
  "rets [] = []"
| "rets (Read ret frame # es) = ret # rets es"
| "rets (e # es) = rets es"

fun grabbed :: "'f event list \<Rightarrow> 'f list" where
  "grabbed [] = []"
| "grabbed (Read ret frame # es) = (if ret then frame # grabbed es else grabbed es)"
| "grabbed (e # es) = grabbed es"

fun shown :: "'f event list \<Rightarrow> 'f list" where
  "shown [] = []"
| "shown (Imshow title frame # es) = frame # shown es"
| "shown (e # es) = shown es"

text \<open>
  The order of read, display and key poll in a trace: a successful read is followed at
  once by the display of the frame it returned, in the window \<open>Webcam\<close>, and then by
  the key poll; no display and no key poll stands anywhere else.
\<close>

fun displayed_before_poll :: "'f event list \<Rightarrow> bool" where
  "displayed_before_poll [] = True"
| "displayed_before_poll (e # es) =
     (case e of
        Read ret frame \<Rightarrow>
          (if ret
           then (case es of
                   Imshow title shown_frame # WaitKey delay k # rest \<Rightarrow>
                     title = ''Webcam'' \<and> shown_frame = frame \<and> displayed_before_poll rest
                 | _ \<Rightarrow> False)
           else displayed_before_poll es)
      | Imshow title frame \<Rightarrow> False
      | WaitKey delay k \<Rightarrow> False
      | _ \<Rightarrow> displayed_before_poll es)"

text \<open>The process status a finished run leaves, if the run has finished.\<close>

fun exit_code :: "outcome \<Rightarrow> int option" where
  "exit_code OutOfFuel = None"
| "exit_code (Exited st) = Some st"
| "exit_code Completed = Some 0"

text \<open>
  Cameras for concrete runs: the results of the reads and of the key polls are taken
  from two lists; past their ends every read fails and no key is pressed (\<open>waitKey\<close>
  returns \<open>-1\<close>). Frames are numbered.
\<close>

definition scripted :: "bool \<Rightarrow> (bool \<times> nat) list \<Rightarrow> int list \<Rightarrow> nat camera" where
  "scripted is_open rs ks =
     \<lparr>opened = is_open,
      reads = (\<lambda>i. if i < length rs then rs ! i else (False, 0)),
      polls = (\<lambda>i. if i < length ks then ks ! i else - 1)\<rparr>"

definition no_camera :: "nat camera" where
  "no_camera = scripted False [] []"

definition two_frames :: "nat camera" where
  "two_frames = scripted True [(True, 7), (True, 8), (False, 0)] []"


section \<open>The launcher (main.py)\<close>

text \<open>
  The launcher is seven statements in a row. Its state is the two variables of the
  script (\<open>var_thread\<close> for \<^verbatim>\<open>thread\<close>, \<open>var_i\<close> for \<^verbatim>\<open>i\<close>, unbound at the start), the flag \<^verbatim>\<open>global_vars.KILL_THREADS\<close>, the effects performed so far and
  whether the main thread is still running. The worker object is opaque (\<^verbatim>\<open>body.py\<close>
  is another module): it is a value of an open type \<open>'w\<close>, which the launcher builds,
  starts and never looks at.
\<close>

datatype exn = EOFError

datatype status = Running | Raised exn | Terminated int

datatype effect =
    New_BodyThread
  | Start_thread
  | Input
  | Print_line string
  | Set_KILL_THREADS bool
  | Sleep real
  | Sys_exit "int option"

record 'w launcher =
  var_thread :: "'w option"
  var_i :: "string option"
  KILL_THREADS :: bool
  effects :: "effect list"
  status :: status

text \<open>The exit notice ends with the ellipsis U+2026, three bytes in UTF-8.\<close>

definition exiting_msg :: string where
  "exiting_msg = ''Exiting'' @ [CHR 0xE2, CHR 0x80, CHR 0xA6]"

text \<open>
  Modelled from the spec: the module \<^verbatim>\<open>global_vars\<close>, which holds the flag, is not
  among the sources; the spec gives the flag as a single process-wide boolean,
  default false.
\<close>

definition global_vars_KILL_THREADS :: bool where
  "global_vars_KILL_THREADS = False"

definition init_state :: "'w launcher" where
  "init_state =
     \<lparr>var_thread = None, var_i = None, KILL_THREADS = global_vars_KILL_THREADS,
      effects = [], status = Running\<rparr>"

text \<open>
  The statements, named by their line. The console is the line that \<^verbatim>\<open>input()\<close>
  returns, or \<open>None\<close> when standard input is at its end, where \<^verbatim>\<open>input()\<close> raises
  \<^verbatim>\<open>EOFError\<close>, which the script does not catch.
\<close>

definition line13 :: "'w \<Rightarrow> 'w launcher \<Rightarrow> 'w launcher" where
  "line13 w s = s\<lparr>var_thread := Some w, effects := effects s @ [New_BodyThread]\<rparr>"

definition line14 :: "'w launcher \<Rightarrow> 'w launcher" where
  "line14 s = s\<lparr>effects := effects s @ [Start_thread]\<rparr>"

definition line16 :: "string option \<Rightarrow> 'w launcher \<Rightarrow> 'w launcher" where
  "line16 console s =
     (case console of
        None \<Rightarrow> s\<lparr>effects := effects s @ [Input], status := Raised EOFError\<rparr>
      | Some l \<Rightarrow> s\<lparr>var_i := Some l, effects := effects s @ [Input]\<rparr>)"

definition line17 :: "'w launcher \<Rightarrow> 'w launcher" where
  "line17 s = s\<lparr>effects := effects s @ [Print_line exiting_msg]\<rparr>"

definition line18 :: "'w launcher \<Rightarrow> 'w launcher" where
  "line18 s = s\<lparr>KILL_THREADS := True, effects := effects s @ [Set_KILL_THREADS True]\<rparr>"

definition line19 :: "'w launcher \<Rightarrow> 'w launcher" where
  "line19 s = s\<lparr>effects := effects s @ [Sleep 0.5]\<rparr>"

definition line20 :: "'w launcher \<Rightarrow> 'w launcher" where
  "line20 s =
     s\<lparr>effects := effects s @ [Sys_exit None], status := Terminated (exit_status None)\<rparr>"

text \<open>
  A statement runs only while the main thread is running: after \<^verbatim>\<open>exit()\<close> or an
  uncaught exception nothing more of the script is executed.
\<close>

definition exec :: "('w launcher \<Rightarrow> 'w launcher) \<Rightarrow> 'w launcher \<Rightarrow> 'w launcher" where
  "exec f s = (if status s = Running then f s else s)"

definition script :: "'w \<Rightarrow> string option \<Rightarrow> ('w launcher \<Rightarrow> 'w launcher) list" where
  "script w console = [line13 w, line14, line16 console, line17, line18, line19, line20]"

text \<open>
  The state after the first \<open>n\<close> statements, the states a run goes through, and the
  state at the end of the script.
\<close>

definition run_upto :: "nat \<Rightarrow> 'w \<Rightarrow> string option \<Rightarrow> 'w launcher \<Rightarrow> 'w launcher" where
  "run_upto n w console s = foldl (\<lambda>s f. exec f s) s (take n (script w console))"

definition states :: "'w \<Rightarrow> string option \<Rightarrow> 'w launcher \<Rightarrow> 'w launcher list" where
  "states w console s = map (\<lambda>n. run_upto n w console s) [0..<Suc (length (script w console))]"

definition main :: "'w \<Rightarrow> string option \<Rightarrow> 'w launcher \<Rightarrow> 'w launcher" where
  "main w console s = run_upto (length (script w console)) w console s"

text \<open>
  The order in which a complete run performs its effects, and the number of places
  where a list of flag values goes from false to true, and from true to false.
\<close>

definition launcher_order :: "effect list" where
  "launcher_order =
     [New_BodyThread, Start_thread, Input, Print_line exiting_msg,
      Set_KILL_THREADS True, Sleep 0.5, Sys_exit None]"

fun rises :: "bool list \<Rightarrow> nat" where
  "rises (a # b # bs) = (if \<not> a \<and> b then 1 else 0) + rises (b # bs)"
| "rises bs = 0"

fun falls :: "bool list \<Rightarrow> nat" where
  "falls (a # b # bs) = (if a \<and> \<not> b then 1 else 0) + falls (b # bs)"
| "falls bs = 0"

section \<open>Properties of the probe\<close>

subsection \<open>The loop and the script, unfolded\<close>

lemma probe_closed:
  "\<not> opened cam \<Longrightarrow>
   probe fuel cam = (Exited 0, [VideoCapture 0, IsOpened False, Print open_failed_msg, Exit None])"
  by (simp add: probe_def)

lemma probe_opened:
  "opened cam \<Longrightarrow>
   probe fuel cam =
     (if fst (loop fuel cam 0)
      then (Completed, [VideoCapture 0, IsOpened True] @ snd (loop fuel cam 0) @ [Release, DestroyAllWindows])
      else (OutOfFuel, [VideoCapture 0, IsOpened True] @ snd (loop fuel cam 0)))"
  by (simp add: probe_def split: prod.splits)

lemma loop_Suc:
  "loop (Suc n) cam i =
     (if \<not> fst (reads cam i)
      then (True, [Read False (snd (reads cam i)), Print grab_failed_msg, Break])
      else if quit_key (polls cam i)
      then (True, [Read True (snd (reads cam i)), Imshow ''Webcam'' (snd (reads cam i)),
                   WaitKey 1 (polls cam i), Break])
      else (fst (loop n cam (Suc i)),
            [Read True (snd (reads cam i)), Imshow ''Webcam'' (snd (reads cam i)),
             WaitKey 1 (polls cam i)] @ snd (loop n cam (Suc i))))"
  by (simp add: Let_def split: prod.splits)

lemma loop_shape: "displayed_before_poll (snd (loop n cam i))"
  by (induction n arbitrary: i) (simp_all add: loop_Suc del: loop.simps(2))

lemma loop_shown: "shown (snd (loop n cam i)) = grabbed (snd (loop n cam i))"
  by (induction n arbitrary: i) (simp_all add: loop_Suc del: loop.simps(2))

lemma loop_no_cleanup:
  "Release \<notin> set (snd (loop n cam i)) \<and> DestroyAllWindows \<notin> set (snd (loop n cam i))"
  by (induction n arbitrary: i) (simp_all add: loop_Suc del: loop.simps(2))

lemma loop_left:
  "fst (loop n cam i) \<Longrightarrow> \<exists>evs. snd (loop n cam i) = evs @ [Break] \<and> Break \<notin> set evs"
proof (induction n arbitrary: i)
  case 0
  then show ?case by simp
next
  case (Suc n)
  show ?case
  proof (cases "fst (reads cam i) \<and> \<not> quit_key (polls cam i)")
    case True
    with Suc.prems have "fst (loop n cam (Suc i))"
      by (simp add: loop_Suc del: loop.simps(2))
    from Suc.IH[OF this] obtain evs where
      e: "snd (loop n cam (Suc i)) = evs @ [Break]" "Break \<notin> set evs" by blast
    let ?pre = "[Read True (snd (reads cam i)), Imshow ''Webcam'' (snd (reads cam i)),
                 WaitKey 1 (polls cam i)] @ evs"
    have "snd (loop (Suc n) cam i) = ?pre @ [Break]"
      using True e by (simp add: loop_Suc del: loop.simps(2))
    moreover have "Break \<notin> set ?pre"
      using e by simp
    ultimately show ?thesis by blast
  next
    case False
    then consider "\<not> fst (reads cam i)" | "fst (reads cam i)" "quit_key (polls cam i)" by blast
    then show ?thesis
    proof cases
      case 1
      then have "snd (loop (Suc n) cam i) =
          [Read False (snd (reads cam i)), Print grab_failed_msg] @ [Break]"
        by (simp add: loop_Suc del: loop.simps(2))
      then show ?thesis by fastforce
    next
      case 2
      then have "snd (loop (Suc n) cam i) =
          [Read True (snd (reads cam i)), Imshow ''Webcam'' (snd (reads cam i)),
           WaitKey 1 (polls cam i)] @ [Break]"
        by (simp add: loop_Suc del: loop.simps(2))
      then show ?thesis by fastforce
    qed
  qed
qed


lemma loop_rets:
  "rets (snd (loop n cam i)) = replicate N True @ [False] \<Longrightarrow>
   fst (loop n cam i) \<and>
   shown (snd (loop n cam i)) = map (\<lambda>j. snd (reads cam j)) [i..<i + N] \<and>
   count_list (snd (loop n cam i)) (Print grab_failed_msg) = 1"
proof (induction n arbitrary: i N)
  case 0
  then show ?case by simp
next
  case (Suc n)
  show ?case
  proof (cases "fst (reads cam i) \<and> \<not> quit_key (polls cam i)")
    case True
    then have s: "snd (loop (Suc n) cam i) =
        [Read True (snd (reads cam i)), Imshow ''Webcam'' (snd (reads cam i)),
         WaitKey 1 (polls cam i)] @ snd (loop n cam (Suc i))"
      and f: "fst (loop (Suc n) cam i) = fst (loop n cam (Suc i))"
      by (simp_all add: loop_Suc del: loop.simps(2))
    from Suc.prems s have p: "True # rets (snd (loop n cam (Suc i))) = replicate N True @ [False]"
      by simp
    then obtain M where N: "N = Suc M" by (cases N) auto
    with p have "rets (snd (loop n cam (Suc i))) = replicate M True @ [False]" by simp
    from Suc.IH[OF this] have
      ih: "fst (loop n cam (Suc i))"
        "shown (snd (loop n cam (Suc i))) = map (\<lambda>j. snd (reads cam j)) [Suc i..<Suc i + M]"
        "count_list (snd (loop n cam (Suc i))) (Print grab_failed_msg) = 1"
      by simp_all
    have u: "[i..<i + N] = i # [Suc i..<Suc i + M]"
      using N by (simp add: upt_conv_Cons)
    show ?thesis
      unfolding s f u using ih by simp
  next
    case False
    then consider "\<not> fst (reads cam i)" | "fst (reads cam i)" "quit_key (polls cam i)" by blast
    then show ?thesis
    proof cases
      case 1
      then have s: "loop (Suc n) cam i =
          (True, [Read False (snd (reads cam i)), Print grab_failed_msg, Break])"
        by (simp add: loop_Suc del: loop.simps(2))
      with Suc.prems have "[False] = replicate N True @ [False]" by simp
      then have "N = 0" by (cases N) auto
      with s show ?thesis by simp
    next
      case 2
      then have s: "loop (Suc n) cam i =
          (True, [Read True (snd (reads cam i)), Imshow ''Webcam'' (snd (reads cam i)),
                  WaitKey 1 (polls cam i), Break])"
        by (simp add: loop_Suc del: loop.simps(2))
      with Suc.prems have "[True] = replicate N True @ [False]" by simp
      then have False by (cases N) auto
      then show ?thesis ..
    qed
  qed
qed

lemma loop_camera:
  "\<forall>j<N. fst (reads cam (i + j)) \<and> \<not> quit_key (polls cam (i + j)) \<Longrightarrow>
   \<not> fst (reads cam (i + N)) \<Longrightarrow> N < n \<Longrightarrow>
   rets (snd (loop n cam i)) = replicate N True @ [False]"
proof (induction N arbitrary: i n)
  case 0
  then obtain m where n: "n = Suc m" by (cases n) auto
  from 0 show ?case
    unfolding n by (simp add: loop_Suc del: loop.simps(2))
next
  case (Suc N)
  then obtain m where n: "n = Suc m" and m: "N < m" by (cases n) auto
  from Suc.prems(1) have here: "fst (reads cam i)" "\<not> quit_key (polls cam i)"
    by force+
  have later: "\<forall>j<N. fst (reads cam (Suc i + j)) \<and> \<not> quit_key (polls cam (Suc i + j))"
    using Suc.prems(1) by (metis Suc_less_eq add_Suc_shift)
  have last: "\<not> fst (reads cam (Suc i + N))"
    using Suc.prems(2) by simp
  have "rets (snd (loop m cam (Suc i))) = replicate N True @ [False]"
    using later last m by (rule Suc.IH)
  with here show ?case
    unfolding n by (simp add: loop_Suc del: loop.simps(2))
qed

lemma rets_append: "rets (xs @ ys) = rets xs @ rets ys"
  by (induction xs rule: rets.induct) simp_all

lemma shown_append: "shown (xs @ ys) = shown xs @ shown ys"
  by (induction xs rule: shown.induct) simp_all

lemma grabbed_append: "grabbed (xs @ ys) = grabbed xs @ grabbed ys"
  by (induction xs rule: grabbed.induct) simp_all

lemma displayed_before_poll_cleanup:
  "displayed_before_poll (xs @ [Release, DestroyAllWindows]) = displayed_before_poll xs"
  by (induction xs rule: displayed_before_poll.induct)
     (auto split: event.splits list.splits)

lemma count_one: "xs = evs @ [x] \<Longrightarrow> x \<notin> set evs \<Longrightarrow> count_list xs x = 1"
  by (simp add: count_list_0_iff)

subsection \<open>Concrete runs\<close>

lemma fuel5: "(5::nat) = Suc (Suc (Suc (Suc (Suc 0))))"
  by simp

lemma two_frames_run:
  "probe 5 two_frames =
     (Completed,
      [VideoCapture 0, IsOpened True,
       Read True 7, Imshow ''Webcam'' 7, WaitKey 1 (- 1),
       Read True 8, Imshow ''Webcam'' 8, WaitKey 1 (- 1),
       Read False 0, Print grab_failed_msg, Break, Release, DestroyAllWindows])"
  unfolding fuel5
  by (simp add: probe_def two_frames_def scripted_def quit_key_def ord_def Let_def)

lemma no_camera_closed: "\<not> opened no_camera"
  by (simp add: no_camera_def scripted_def)


subsection \<open>The claims about the probe\<close>

text \<open>
  Claim C2. Let the camera be open and let it yield \<open>N\<close> successful reads followed by
  one failed read, for any \<open>N\<close>, zero included: the first \<open>N\<close> reads succeed, none of
  the key polls that follow them returns the quit key (which would end the loop before
  the camera has yielded the next read), and read number \<open>N\<close> fails. Then every run
  with fuel for more than \<open>N\<close> iterations comes to the end of the script (nothing is
  raised): it has made exactly those \<open>N + 1\<close> reads, it has displayed exactly the \<open>N\<close>
  frames, one \<^verbatim>\<open>imshow\<close> per successful read and in the order of the reads, it has
  printed the frame-failure message once, and it has left the loop once.
\<close>
theorem probe_shows_every_frame_then_stops:
  assumes "opened cam"
    and "\<forall>i<N. fst (reads cam i)"
    and "\<not> fst (reads cam N)"
    and "\<forall>i<N. \<not> quit_key (polls cam i)"
    and "N < fuel"
  shows "fst (probe fuel cam) = Completed \<and>
         rets (snd (probe fuel cam)) = replicate N True @ [False] \<and>
         shown (snd (probe fuel cam)) = map (\<lambda>j. snd (reads cam j)) [0..<N] \<and>
         length (shown (snd (probe fuel cam))) = N \<and>
         count_list (snd (probe fuel cam)) (Print grab_failed_msg) = 1 \<and>
         count_list (snd (probe fuel cam)) Break = 1"
proof -
  let ?l = "loop fuel cam 0"
  have "\<forall>j<N. fst (reads cam (0 + j)) \<and> \<not> quit_key (polls cam (0 + j))"
    using assms(2,4) by simp
  moreover have "\<not> fst (reads cam (0 + N))"
    using assms(3) by simp
  ultimately have r: "rets (snd ?l) = replicate N True @ [False]"
    using assms(5) by (rule loop_camera)
  from loop_rets[OF r] have
    l: "fst ?l" "shown (snd ?l) = map (\<lambda>j. snd (reads cam j)) [0..<N]"
       "count_list (snd ?l) (Print grab_failed_msg) = 1"
    by simp_all
  from loop_left[OF l(1)] obtain evs where e: "snd ?l = evs @ [Break]" "Break \<notin> set evs"
    by blast
  have b: "count_list (snd ?l) Break = 1"
    using e by (rule count_one)
  have p: "probe fuel cam =
      (Completed, [VideoCapture 0, IsOpened True] @ snd ?l @ [Release, DestroyAllWindows])"
    using assms(1) l(1) by (simp add: probe_opened)
  show ?thesis
    unfolding p using l b r by (simp add: shown_append rets_append)
qed

theorem probe_shows_every_frame_then_stops_witness:
  "opened two_frames \<and>
   fst (reads two_frames 0) \<and> fst (reads two_frames 1) \<and> \<not> fst (reads two_frames 2) \<and>
   \<not> quit_key (polls two_frames 0) \<and> \<not> quit_key (polls two_frames 1) \<and> (2::nat) < 5 \<and>
   fst (probe 5 two_frames) = Completed \<and>
   shown (snd (probe 5 two_frames)) = [7, 8] \<and>
   count_list (snd (probe 5 two_frames)) (Print grab_failed_msg) = 1 \<and>
   count_list (snd (probe 5 two_frames)) Break = 1"
proof -
  have o: "opened two_frames"
    by (simp add: two_frames_def scripted_def)
  have g: "\<forall>i<2. fst (reads two_frames i)"
    by (simp add: two_frames_def scripted_def numeral_2_eq_2 less_Suc_eq)
  have f: "\<not> fst (reads two_frames 2)"
    by (simp add: two_frames_def scripted_def)
  have k: "\<forall>i<2. \<not> quit_key (polls two_frames i)"
    by (simp add: two_frames_def scripted_def quit_key_def ord_def)
  have n: "(2::nat) < 5" by simp
  have "map (\<lambda>j. snd (reads two_frames j)) [0..<2] = [7, 8]"
    by (simp add: two_frames_def scripted_def upt_conv_Cons numeral_2_eq_2)
  with probe_shows_every_frame_then_stops[OF o g f k n] o g f k show ?thesis
    by (simp add: numeral_2_eq_2 less_Suc_eq)
qed

text \<open>
  Claim C3. If the camera at index 0 does not open, the run is: open the device, ask
  whether it is open, print the failure message, call \<^verbatim>\<open>exit()\<close>. The process ends
  there, whatever the fuel; no frame is read, none is displayed and no key is polled.
\<close>
theorem probe_without_camera_skips_loop:
  assumes "\<not> opened cam"
  shows "snd (probe fuel cam) =
           [VideoCapture 0, IsOpened False, Print open_failed_msg, Exit None] \<and>
         (\<exists>st. fst (probe fuel cam) = Exited st) \<and>
         (\<forall>ret frame. Read ret frame \<notin> set (snd (probe fuel cam))) \<and>
         (\<forall>title frame. Imshow title frame \<notin> set (snd (probe fuel cam))) \<and>
         (\<forall>delay k. WaitKey delay k \<notin> set (snd (probe fuel cam)))"
  using assms by (simp add: probe_closed)

theorem probe_without_camera_skips_loop_witness:
  "\<not> opened no_camera \<and>
   snd (probe 3 no_camera) =
     [VideoCapture 0, IsOpened False, Print open_failed_msg, Exit None]"
  using probe_without_camera_skips_loop[OF no_camera_closed, of 3] no_camera_closed by simp

text \<open>
  Claim C4 says that the exit of the probe after a failed open carries a non-zero exit
  code. On the camera \<open>no_camera\<close>, which does not open, the exit code is 0.
\<close>
theorem probe_without_camera_exit_code_counterexample:
  "\<not> opened no_camera \<and> exit_code (fst (probe 3 no_camera)) = Some 0"
  by (simp add: probe_def no_camera_def scripted_def)

text \<open>
  Claim C4, amended. When the camera fails to open, the probe leaves through
  \<^verbatim>\<open>exit()\<close>, called without an argument, and the exit code of the process is 0.
\<close>
theorem probe_without_camera_exits_zero:
  assumes "\<not> opened cam"
  shows "Exit None \<in> set (snd (probe fuel cam)) \<and>
         exit_code (fst (probe fuel cam)) = Some 0"
  using assms by (simp add: probe_closed)

theorem probe_without_camera_exits_zero_witness:
  "\<not> opened no_camera \<and> Exit None \<in> set (snd (probe 3 no_camera)) \<and>
   exit_code (fst (probe 3 no_camera)) = Some 0"
  using probe_without_camera_exits_zero[OF no_camera_closed, of 3] no_camera_closed by simp



text \<open>
  Claim C9. In every run of the probe, complete or cut off by the fuel, each successful
  read is followed at once by the display of the frame it returned and then by the key
  poll of the same iteration, and no display or key poll stands anywhere else; so the
  frames displayed are exactly the frames successfully read, each once and in order.
\<close>
theorem probe_frame_displayed_before_poll:
  "displayed_before_poll (snd (probe fuel cam)) \<and>
   shown (snd (probe fuel cam)) = grabbed (snd (probe fuel cam))"
proof (cases "opened cam")
  case False
  then show ?thesis by (simp add: probe_closed)
next
  case True
  have "displayed_before_poll (snd (loop fuel cam 0) @ [Release, DestroyAllWindows])"
    by (simp only: displayed_before_poll_cleanup loop_shape)
  with True show ?thesis
    by (simp add: probe_opened loop_shape loop_shown shown_append grabbed_append)
qed

text \<open>
  Claim C10. When the camera fails to open, the run contains neither the release of
  the device nor the destruction of the windows. And a run that contains either of them
  is a run with an open camera that has left the display loop by a \<^verbatim>\<open>break\<close>.
\<close>
theorem probe_cleanup_only_after_loop:
  "(\<not> opened cam \<longrightarrow>
      Release \<notin> set (snd (probe fuel cam)) \<and>
      DestroyAllWindows \<notin> set (snd (probe fuel cam))) \<and>
   (Release \<in> set (snd (probe fuel cam)) \<or> DestroyAllWindows \<in> set (snd (probe fuel cam)) \<longrightarrow>
      opened cam \<and> Break \<in> set (snd (probe fuel cam)))"
proof (cases "opened cam")
  case False
  then show ?thesis by (simp add: probe_closed)
next
  case True
  show ?thesis
  proof (cases "fst (loop fuel cam 0)")
    case l: True
    from loop_left[OF l] obtain evs where "snd (loop fuel cam 0) = evs @ [Break]" by blast
    with True l show ?thesis by (simp add: probe_opened)
  next
    case l: False
    with True show ?thesis
      using loop_no_cleanup[of fuel cam 0] by (simp add: probe_opened)
  qed
qed

theorem probe_cleanup_only_after_loop_witness:
  "\<not> opened no_camera \<and>
   Release \<notin> set (snd (probe 3 no_camera)) \<and>
   DestroyAllWindows \<notin> set (snd (probe 3 no_camera)) \<and>
   Release \<in> set (snd (probe 5 two_frames)) \<and>
   opened two_frames \<and> Break \<in> set (snd (probe 5 two_frames))"
proof -
  have r: "Release \<in> set (snd (probe 5 two_frames))"
    by (simp add: two_frames_run)
  from probe_cleanup_only_after_loop[of no_camera 3] probe_cleanup_only_after_loop[of two_frames 5] no_camera_closed r show ?thesis by blast
qed

section \<open>Properties of the launcher\<close>

subsection \<open>The states of a run\<close>

lemmas line_defs = line13_def line14_def line16_def line17_def line18_def line19_def line20_def

lemma run_upto_cases:
  "7 \<le> k \<or> k = 6 \<or> k = 5 \<or> k = 4 \<or> k = 3 \<or> k = 2 \<or> k = 1 \<or> (k::nat) = 0"
  by arith

lemma run_upto_line:
  "run_upto n w (Some l) init_state =
     \<lparr>var_thread = (if 1 \<le> n then Some w else None),
      var_i = (if 3 \<le> n then Some l else None),
      KILL_THREADS = (5 \<le> n),
      effects = take n launcher_order,
      status = (if 7 \<le> n then Terminated 0 else Running)\<rparr>"
  using run_upto_cases[of n]
  by (elim disjE)
     (simp_all add: run_upto_def script_def exec_def init_state_def line_defs
        global_vars_KILL_THREADS_def launcher_order_def)

lemma run_upto_eof:
  "run_upto n w None init_state =
     \<lparr>var_thread = (if 1 \<le> n then Some w else None),
      var_i = None,
      KILL_THREADS = False,
      effects = take (min n 3) launcher_order,
      status = (if 3 \<le> n then Raised EOFError else Running)\<rparr>"
  using run_upto_cases[of n]
  by (elim disjE)
     (simp_all add: run_upto_def script_def exec_def init_state_def line_defs
        global_vars_KILL_THREADS_def launcher_order_def)

lemma exec_keeps_flag:
  "f \<in> set (script w c) \<Longrightarrow> KILL_THREADS s \<Longrightarrow> KILL_THREADS (exec f s)"
  by (auto simp: script_def exec_def line_defs split: option.splits)

lemma foldl_keeps_flag:
  "set fs \<subseteq> set (script w c) \<Longrightarrow> KILL_THREADS s \<Longrightarrow>
   KILL_THREADS (foldl (\<lambda>s f. exec f s) s fs)"
proof (induction fs arbitrary: s)
  case Nil
  then show ?case by simp
next
  case (Cons f fs)
  from Cons.prems have "f \<in> set (script w c)" by simp
  then have "KILL_THREADS (exec f s)"
    using Cons.prems(2) by (rule exec_keeps_flag)
  with Cons show ?case by simp
qed

lemma run_upto_split:
  assumes "n \<le> m"
  shows "run_upto m w c s =
         foldl (\<lambda>s f. exec f s) (run_upto n w c s) (drop n (take m (script w c)))"
proof -
  have "take m (script w c) = take n (script w c) @ drop n (take m (script w c))"
    using assms by (metis append_take_drop_id min.absorb1 take_take)
  then show ?thesis
    unfolding run_upto_def by (metis foldl_append)
qed

lemma flag_never_reset:
  assumes "n \<le> m" and "KILL_THREADS (run_upto n w c s)"
  shows "KILL_THREADS (run_upto m w c s)"
proof -
  have "set (drop n (take m (script w c))) \<subseteq> set (script w c)"
    by (meson set_drop_subset set_take_subset subset_trans)
  from foldl_keeps_flag[OF this assms(2)] show ?thesis
    by (simp add: run_upto_split[OF assms(1)])
qed

lemma states_unfold:
  "states w c s =
     [run_upto 0 w c s, run_upto 1 w c s, run_upto 2 w c s, run_upto 3 w c s,
      run_upto 4 w c s, run_upto 5 w c s, run_upto 6 w c s, run_upto 7 w c s]"
  by (simp add: states_def script_def upt_conv_Cons eval_nat_numeral)

lemma falls_mono:
  "(\<And>k. Suc k < length bs \<Longrightarrow> bs ! k \<Longrightarrow> bs ! Suc k) \<Longrightarrow> falls bs = 0"
proof (induction bs rule: falls.induct)
  case (1 a b bs)
  from "1.prems"[of 0] have ab: "a \<longrightarrow> b" by simp
  have "falls (b # bs) = 0"
  proof (rule "1.IH")
    fix k
    assume "Suc k < length (b # bs)" and "(b # bs) ! k"
    with "1.prems"[of "Suc k"] show "(b # bs) ! Suc k" by simp
  qed
  with ab show ?case by simp
qed simp_all

lemma states_nth:
  "k < length (states w c s) \<Longrightarrow> states w c s ! k = run_upto k w c s"
  by (simp add: states_def del: upt_Suc)

lemma flags_line:
  "map KILL_THREADS (states w (Some l) init_state) =
     [False, False, False, False, False, True, True, True]"
  by (simp add: states_unfold run_upto_line)

subsection \<open>The claims about the launcher\<close>

text \<open>
  Claim C1. In a run of the launcher that reads a line, the flag \<open>KILL_THREADS\<close> is
  false at the start and after each of the first four statements, and true after the
  fifth statement (line 18) and at every later point; the line has been read by then
  (the third statement binds it). Along the states of the run the flag goes from false
  to true exactly once. Whatever the console gives and whatever the starting state,
  the flag never goes from true to false: once it is true at some point of a run, it
  is true at every later point.
\<close>
theorem launcher_flag_set_once_never_reset:
  "KILL_THREADS (init_state :: 'w launcher) = False \<and>
   KILL_THREADS (run_upto n (w :: 'w) (Some line) init_state) = (5 \<le> n) \<and>
   var_i (run_upto n w (Some line) init_state) = (if 3 \<le> n then Some line else None) \<and>
   rises (map KILL_THREADS (states w (Some line) init_state)) = 1 \<and>
   falls (map KILL_THREADS (states w console s)) = 0 \<and>
   (n \<le> m \<and> KILL_THREADS (run_upto n w console s) \<longrightarrow> KILL_THREADS (run_upto m w console s))"
proof (intro conjI impI)
  show "KILL_THREADS (init_state :: 'w launcher) = False"
    by (simp add: init_state_def global_vars_KILL_THREADS_def)
  show "KILL_THREADS (run_upto n w (Some line) init_state) = (5 \<le> n)"
    by (simp add: run_upto_line)
  show "var_i (run_upto n w (Some line) init_state) = (if 3 \<le> n then Some line else None)"
    by (simp add: run_upto_line)
  show "rises (map KILL_THREADS (states w (Some line) init_state)) = 1"
    by (simp add: flags_line)
  show "falls (map KILL_THREADS (states w console s)) = 0"
  proof (rule falls_mono)
    fix k
    assume k: "Suc k < length (map KILL_THREADS (states w console s))"
      and "map KILL_THREADS (states w console s) ! k"
    then have "KILL_THREADS (run_upto k w console s)"
      by (simp add: states_nth)
    then have "KILL_THREADS (run_upto (Suc k) w console s)"
      by (rule flag_never_reset[rotated]) simp
    with k show "map KILL_THREADS (states w console s) ! Suc k"
      by (simp add: states_nth)
  qed
  assume "n \<le> m \<and> KILL_THREADS (run_upto n w console s)"
  then show "KILL_THREADS (run_upto m w console s)"
    using flag_never_reset[of n m w console s] by simp
qed

theorem launcher_flag_set_once_never_reset_witness:
  "(4::nat) \<le> 6 \<and> \<not> KILL_THREADS (run_upto 4 () (Some ''stop'') init_state) \<and>
   (5::nat) \<le> 6 \<and> KILL_THREADS (run_upto 5 () (Some ''stop'') init_state) \<and>
   KILL_THREADS (run_upto 6 () (Some ''stop'') init_state)"
proof -
  have a: "\<not> KILL_THREADS (run_upto 4 () (Some ''stop'') init_state)"
    using launcher_flag_set_once_never_reset[of 4 "()" "''stop''"] by simp
  have b: "KILL_THREADS (run_upto 5 () (Some ''stop'') init_state)"
    using launcher_flag_set_once_never_reset[of 5 "()" "''stop''"] by simp
  have "(5::nat) \<le> 6 \<and> KILL_THREADS (run_upto 5 () (Some ''stop'') init_state)"
    using b by simp
  with launcher_flag_set_once_never_reset[of 5 "()" "''stop''" "Some ''stop''" init_state 6]
  have "KILL_THREADS (run_upto 6 () (Some ''stop'') init_state)"
    by blast
  with a b show ?thesis by simp
qed

text \<open>
  Claim C6 says that every run of the launcher performs the seven effects in order and
  sleeps between the store to the flag and the end of the process. The run whose
  standard input is at its end does not: \<^verbatim>\<open>input()\<close> raises \<^verbatim>\<open>EOFError\<close>, which
  nothing catches, so the main thread ends after three effects, with the flag unset and
  without the sleep.
\<close>
theorem launcher_eof_counterexample:
  "status (main () None init_state) = Raised EOFError \<and>
   effects (main () None init_state) = [New_BodyThread, Start_thread, Input] \<and>
   \<not> KILL_THREADS (main () None init_state) \<and>
   Sleep 0.5 \<notin> set (effects (main () None init_state))"
  by (simp add: main_def script_def run_upto_eof launcher_order_def)

text \<open>
  Claim C6, amended. Every run of the launcher in which \<^verbatim>\<open>input()\<close> returns a line
  performs exactly these effects, in this order: build the worker, start it, read the
  line from the console, print the exit notice, set the flag to true, sleep 0.5, call
  \<^verbatim>\<open>exit()\<close>; the process then has terminated, and the sleep stands between the store
  to the flag and the exit. The worker \<open>w\<close> is arbitrary, so this does not depend on
  its state. After the first \<open>n\<close> statements the effects performed are the first \<open>n\<close>
  of that list, and the main thread is running exactly until the seventh.
\<close>
theorem launcher_effects_in_order:
  "effects (main w (Some line) init_state) =
     [New_BodyThread, Start_thread, Input, Print_line exiting_msg,
      Set_KILL_THREADS True, Sleep 0.5, Sys_exit None] \<and>
   status (main w (Some line) init_state) = Terminated 0 \<and>
   effects (run_upto n w (Some line) init_state) = take n launcher_order \<and>
   (status (run_upto n w (Some line) init_state) = Running) = (n < 7)"
  unfolding main_def
  by (simp add: run_upto_line script_def launcher_order_def)

text \<open>
  Claim C7. For every line the console gives, the empty line included, the launcher
  runs to its end: the line is bound, the exit notice printed, the flag set, the sleep
  done and the process terminated through \<^verbatim>\<open>exit()\<close>.
\<close>
theorem launcher_any_line_completes:
  "main w (Some line) init_state =
     \<lparr>var_thread = Some w, var_i = Some line, KILL_THREADS = True,
      effects = [New_BodyThread, Start_thread, Input, Print_line exiting_msg,
                 Set_KILL_THREADS True, Sleep 0.5, Sys_exit None],
      status = Terminated 0\<rparr> \<and>
   main w (Some '''') init_state =
     \<lparr>var_thread = Some w, var_i = Some '''', KILL_THREADS = True,
      effects = [New_BodyThread, Start_thread, Input, Print_line exiting_msg,
                 Set_KILL_THREADS True, Sleep 0.5, Sys_exit None],
      status = Terminated 0\<rparr>"
  by (simp add: main_def script_def run_upto_line launcher_order_def)

text \<open>
  Claim C8. For any two lines and any starting state, the two runs of the launcher
  perform the same effects (so print the same output), leave the same flag value and
  end in the same way; the final states differ at most in the variable \<^verbatim>\<open>i\<close>, which
  holds the line and is never read.
\<close>
theorem launcher_independent_of_line:
  "effects (main w (Some line1) s) = effects (main w (Some line2) s) \<and>
   KILL_THREADS (main w (Some line1) s) = KILL_THREADS (main w (Some line2) s) \<and>
   status (main w (Some line1) s) = status (main w (Some line2) s) \<and>
   var_thread (main w (Some line1) s) = var_thread (main w (Some line2) s) \<and>
   (main w (Some line1) s)\<lparr>var_i := None\<rparr> = (main w (Some line2) s)\<lparr>var_i := None\<rparr>"
  by (simp add: main_def run_upto_def script_def exec_def line_defs)

end
